theory Spec2Isabelle
  imports Main "HOL-Library.Word"
begin

section \<open>The crawler of task1/hw1/crawler.py\<close>

text \<open>
  Python strings are modelled as \<open>string\<close>: lists of characters with code points
  below 256. In that range the regular-expression class \<open>\d\<close> is exactly \<open>0..9\<close>.
  The decoded HTML bodies are used by the crawler only through their length, their
  emptiness and the external HTML parser, so the same type serves for them.
  Raw response bodies are lists of bytes.
\<close>

type_synonym bytes = "8 word list"

subsection \<open>Module constants\<close>

definition BASE :: string where
  "BASE = ''https://ilibrary.ru''"

definition AUTHORS_PAGE :: string where
  "AUTHORS_PAGE = BASE @ ''/author.html''"

definition OUT_DIR :: string where
  "OUT_DIR = ''./task1/dump''"

definition URLS_TXT :: string where
  "URLS_TXT = ''./task1/urls.txt''"

definition INDEX_TXT :: string where
  "INDEX_TXT = ''./task1/index.txt''"

definition MIN_PAGES_TO_DOWNLOAD :: int where
  "MIN_PAGES_TO_DOWNLOAD = 100"

definition MAX_BYTES :: nat where
  "MAX_BYTES = 5000000"

subsection \<open>Regular expressions\<close>

text \<open>
  The two patterns of the source use literal characters, \<open>\d\<close>, \<open>[^/]\<close>, \<open>?\<close> and
  \<open>+\<close>. They are anchored with \<open>^\<close> and \<open>$\<close> and have no groups that are read
  back, so \<open>re.match\<close> decides membership in the language of the pattern, where \<open>$\<close>
  of Python accepts the end of the string and also the position before one final
  newline. Membership is computed with derivatives.
\<close>

datatype atom = Ch char | Digit | NotSlash

fun atom_matches :: "atom \<Rightarrow> char \<Rightarrow> bool" where
  "atom_matches (Ch a) c = (a = c)"
| "atom_matches Digit c = (c \<in> set ''0123456789'')"
| "atom_matches NotSlash c = (c \<noteq> CHR ''/'')"

datatype regex =
    Fail
  | Empty
  | Atom atom
  | Alt regex regex
  | Seq regex regex
  | Star regex

definition Opt :: "regex \<Rightarrow> regex" where
  "Opt r = Alt r Empty"

definition Plus :: "regex \<Rightarrow> regex" where
  "Plus r = Seq r (Star r)"

fun Lit :: "string \<Rightarrow> regex" where
  "Lit [] = Empty"
| "Lit (c # cs) = Seq (Atom (Ch c)) (Lit cs)"

fun Seqs :: "regex list \<Rightarrow> regex" where
  "Seqs [] = Empty"
| "Seqs (r # rs) = Seq r (Seqs rs)"

fun nullable :: "regex \<Rightarrow> bool" where
  "nullable Fail = False"
| "nullable Empty = True"
| "nullable (Atom a) = False"
| "nullable (Alt r s) = (nullable r \<or> nullable s)"
| "nullable (Seq r s) = (nullable r \<and> nullable s)"
| "nullable (Star r) = True"

text \<open>Sequence and alternative that drop the parts that cannot match any more.\<close>

fun seq :: "regex \<Rightarrow> regex \<Rightarrow> regex" where
  "seq Fail s = Fail"
| "seq Empty s = s"
| "seq r s = Seq r s"

fun alt :: "regex \<Rightarrow> regex \<Rightarrow> regex" where
  "alt Fail s = s"
| "alt r Fail = r"
| "alt r s = Alt r s"

fun deriv :: "char \<Rightarrow> regex \<Rightarrow> regex" where
  "deriv c Fail = Fail"
| "deriv c Empty = Fail"
| "deriv c (Atom a) = (if atom_matches a c then Empty else Fail)"
| "deriv c (Alt r s) = alt (deriv c r) (deriv c s)"
| "deriv c (Seq r s) =
     (if nullable r then alt (seq (deriv c r) s) (deriv c s) else seq (deriv c r) s)"
| "deriv c (Star r) = seq (deriv c r) (Star r)"

fun accepts :: "regex \<Rightarrow> string \<Rightarrow> bool" where
  "accepts r [] = nullable r"
| "accepts r (c # cs) = accepts (deriv c r) cs"

definition re_match :: "regex \<Rightarrow> string \<Rightarrow> bool" where
  \<comment> \<open>\<open>re.match\<close> of a pattern of the form \<open>^r$\<close>\<close>
  "re_match r u =
     (accepts r u \<or> (u \<noteq> [] \<and> last u = CHR 0x0A \<and> accepts r (butlast u)))"

definition TEXT_PAGE_RE :: regex where
  \<comment> \<open>\<open>^https?://(?:www\.)?ilibrary\.ru/text/\d+/p\.\d+/index\.html$\<close>\<close>
  "TEXT_PAGE_RE =
     Seqs [Lit ''http'', Opt (Lit ''s''), Lit ''://'', Opt (Lit ''www.''),
           Lit ''ilibrary.ru/text/'', Plus (Atom Digit), Lit ''/p.'', Plus (Atom Digit),
           Lit ''/index.html'']"

definition AUTHOR_PAGE_RE :: regex where
  \<comment> \<open>\<open>^https?://(?:www\.)?ilibrary\.ru/author/[^/]+/index\.html$\<close>\<close>
  "AUTHOR_PAGE_RE =
     Seqs [Lit ''http'', Opt (Lit ''s''), Lit ''://'', Opt (Lit ''www.''),
           Lit ''ilibrary.ru/author/'', Plus (Atom NotSlash), Lit ''/index.html'']"

subsection \<open>String helpers of Python\<close>

text \<open>\<open>str.replace(old, new)\<close>: every non-overlapping occurrence, from the left.\<close>

function replace :: "string \<Rightarrow> string \<Rightarrow> string \<Rightarrow> string" where
  "replace [] old new = (if old = [] then new else [])"
| "replace (c # cs) old new =
     (if old = [] then new @ concat (map (\<lambda>x. x # new) (c # cs))
      else if take (length old) (c # cs) = old
      then new @ replace (drop (length old) (c # cs)) old new
      else c # replace cs old new)"
  by pat_completeness auto
termination
  by (relation "measure (\<lambda>(s, old, new). length s)") auto

text \<open>\<open>str(n)\<close> for a non-negative integer: its decimal digits.\<close>

definition digit_char :: "nat \<Rightarrow> char" where
  "digit_char d = ''0123456789'' ! d"

function str_nat :: "nat \<Rightarrow> string" where
  "str_nat n = (if n < 10 then [digit_char n] else str_nat (n div 10) @ [digit_char (n mod 10)])"
  by pat_completeness auto
termination
  by (relation "measure id") auto

text \<open>\<open>sep.join(xs)\<close>.\<close>

fun join :: "string \<Rightarrow> string list \<Rightarrow> string" where
  "join sep [] = []"
| "join sep [x] = x"
| "join sep (x # y # ys) = x @ sep @ join sep (y # ys)"

text \<open>
  \<open>str.lower()\<close> on code points below 256: the letters A..Z and the capital
  letters of Latin-1 (C0..DE without D7) move up by 32.
\<close>

definition upper_chars :: string where
  "upper_chars = ''ABCDEFGHIJKLMNOPQRSTUVWXYZ'' @
     [CHR 0xC0, CHR 0xC1, CHR 0xC2, CHR 0xC3, CHR 0xC4, CHR 0xC5, CHR 0xC6, CHR 0xC7,
      CHR 0xC8, CHR 0xC9, CHR 0xCA, CHR 0xCB, CHR 0xCC, CHR 0xCD, CHR 0xCE, CHR 0xCF,
      CHR 0xD0, CHR 0xD1, CHR 0xD2, CHR 0xD3, CHR 0xD4, CHR 0xD5, CHR 0xD6,
      CHR 0xD8, CHR 0xD9, CHR 0xDA, CHR 0xDB, CHR 0xDC, CHR 0xDD, CHR 0xDE]"

definition lower_chars :: string where
  "lower_chars = ''abcdefghijklmnopqrstuvwxyz'' @
     [CHR 0xE0, CHR 0xE1, CHR 0xE2, CHR 0xE3, CHR 0xE4, CHR 0xE5, CHR 0xE6, CHR 0xE7,
      CHR 0xE8, CHR 0xE9, CHR 0xEA, CHR 0xEB, CHR 0xEC, CHR 0xED, CHR 0xEE, CHR 0xEF,
      CHR 0xF0, CHR 0xF1, CHR 0xF2, CHR 0xF3, CHR 0xF4, CHR 0xF5, CHR 0xF6,
      CHR 0xF8, CHR 0xF9, CHR 0xFA, CHR 0xFB, CHR 0xFC, CHR 0xFD, CHR 0xFE]"

definition lower_char :: "char \<Rightarrow> char" where
  "lower_char c = (case map_of (zip upper_chars lower_chars) c of Some l \<Rightarrow> l | None \<Rightarrow> c)"

definition lower :: "string \<Rightarrow> string" where
  "lower s = map lower_char s"

text \<open>\<open>needle in haystack\<close> for strings.\<close>

fun contains :: "string \<Rightarrow> string \<Rightarrow> bool" where
  "contains [] needle = (needle = [])"
| "contains (c # cs) needle =
     (take (length needle) (c # cs) = needle \<or> contains cs needle)"

text \<open>\<open>str.strip()\<close>: the white space of Python among the code points below 256.\<close>

definition is_space :: "char \<Rightarrow> bool" where
  "is_space c =
     (c \<in> set [CHR 0x09, CHR 0x0A, CHR 0x0B, CHR 0x0C, CHR 0x0D, CHR 0x1C, CHR 0x1D,
                CHR 0x1E, CHR 0x1F, CHR 0x20, CHR 0x85, CHR 0xA0])"

definition strip :: "string \<Rightarrow> string" where
  "strip s = rev (dropWhile is_space (rev (dropWhile is_space s)))"

text \<open>\<open>os.path.join(a, b)\<close> on POSIX, for two components.\<close>

definition path_join :: "string \<Rightarrow> string \<Rightarrow> string" where
  "path_join a b =
     (if b \<noteq> [] \<and> hd b = CHR ''/'' then b
      else if a = [] \<or> last a = CHR ''/'' then a @ b
      else a @ ''/'' @ b)"

subsection \<open>The outside world: transport, codecs, parser, file system\<close>

text \<open>
  \<open>session.get\<close> either raises a \<open>requests.RequestException\<close> or gives a response:
  its Content-Type header (if any), the chunks that \<open>iter_content\<close> yields, how the
  stream finishes, and the encoding that requests declares (if any). A stream either
  ends, or breaks after its last chunk: \<open>iter_content\<close> then raises (a dropped
  connection, a read timeout), as it can with \<open>stream=True\<close>.
\<close>

datatype stream_end = StreamEnds | StreamBreaks

record response =
  content_type :: "string option"
  chunks :: "bytes list"
  stream_end :: stream_end
  encoding :: "string option"

datatype get_result = RequestException | Got response

text \<open>
  The capabilities the crawler calls and does not define: the transport, \<open>bytes.decode\<close>
  with \<open>errors="replace"\<close> under a named codec (\<open>None\<close> when it raises, as for an
  unknown codec name), the same under UTF-8 (it never raises), the \<open>href\<close> values of
  the \<open>a\<close> elements that BeautifulSoup finds, in document order, and \<open>urljoin\<close>.
\<close>

record env =
  http_get :: "string \<Rightarrow> get_result"
  decode :: "string \<Rightarrow> bytes \<Rightarrow> string option"
  decode_utf8 :: "bytes \<Rightarrow> string"
  hrefs :: "string \<Rightarrow> string list"
  urljoin :: "string \<Rightarrow> string \<Rightarrow> string"

text \<open>The lines the crawler prints, by their format string.\<close>

datatype log_line =
    SkipRequestError string
  | SkipNotHtml string string
  | SkipTooLarge string
  | SkipTooSmall string
  | InfoAuthors nat
  | InfoProgress nat nat
  | OkSaved nat string
  | InfoUrlsSaved nat
  | DoneShort nat
  | DoneEnough nat

text \<open>What a run does to the outside world, in order.\<close>

datatype event =
    Sleep
  | HttpGet string
  | ReadChunk bytes
  | CloseResponse
  | Print log_line
  | MakeDirs string
  | WriteFile string string

text \<open>The exceptions that leave a function of the crawler.\<close>

datatype exn = RuntimeError | StreamError

type_synonym 'a outcome = "event list \<times> (exn + 'a)"

definition after :: "event list \<Rightarrow> 'a outcome \<Rightarrow> 'a outcome" where
  "after evs r = (evs @ fst r, snd r)"

text \<open>Truth value of \<open>str | None\<close>: \<open>not html\<close> holds for \<open>None\<close> and for \<open>""\<close>.\<close>

definition falsy :: "string option \<Rightarrow> bool" where
  "falsy html = (html = None \<or> html = Some [])"

subsection \<open>fetch_html\<close>

datatype read_result = TooLarge | Broken | Complete "bytes list"

text \<open>The loop over \<open>resp.iter_content\<close>, with the running \<open>total\<close> (here \<open>total_bytes\<close>) and the list \<open>chunks\<close>.\<close>

fun read_body :: "string \<Rightarrow> bytes list \<Rightarrow> stream_end \<Rightarrow> nat \<Rightarrow> bytes list
    \<Rightarrow> event list \<times> read_result" where
  "read_body url [] StreamEnds total_bytes acc = ([], Complete acc)"
| "read_body url [] StreamBreaks total_bytes acc = ([], Broken)"
| "read_body url (chunk # rest) fin total_bytes acc =
     (if chunk = [] then
        (let r = read_body url rest fin total_bytes acc in (ReadChunk chunk # fst r, snd r))
      else if total_bytes + length chunk > MAX_BYTES then
        ([ReadChunk chunk, Print (SkipTooLarge url)], TooLarge)
      else
        (let r = read_body url rest fin (total_bytes + length chunk) (acc @ [chunk])
         in (ReadChunk chunk # fst r, snd r)))"

definition is_html :: "response \<Rightarrow> bool" where
  "is_html resp =
     contains (lower (case content_type resp of None \<Rightarrow> [] | Some c \<Rightarrow> c)) ''text/html''"

definition fetch_html :: "env \<Rightarrow> string \<Rightarrow> string option outcome" where
  "fetch_html e url =
     (case http_get e url of
        RequestException \<Rightarrow> ([Sleep, HttpGet url, Print (SkipRequestError url)], Inr None)
      | Got resp \<Rightarrow>
          (let ctype = lower (case content_type resp of None \<Rightarrow> [] | Some c \<Rightarrow> c) in
           if \<not> contains ctype ''text/html'' then
             ([Sleep, HttpGet url, CloseResponse, Print (SkipNotHtml url ctype)], Inr None)
           else
             (case read_body url (chunks resp) (stream_end resp) 0 [] of
                (evs, TooLarge) \<Rightarrow> ([Sleep, HttpGet url] @ evs @ [CloseResponse], Inr None)
              | (evs, Broken) \<Rightarrow> ([Sleep, HttpGet url] @ evs @ [CloseResponse], Inl StreamError)
              | (evs, Complete cs) \<Rightarrow>
                  (let raw = concat cs;
                       enc = (case encoding resp of None \<Rightarrow> ''utf-8''
                              | Some n \<Rightarrow> if n = [] then ''utf-8'' else n)
                   in ([Sleep, HttpGet url] @ evs @ [CloseResponse],
                       Inr (Some (case decode e enc raw of
                                    Some s \<Rightarrow> s
                                  | None \<Rightarrow> decode_utf8 e raw)))))))"

subsection \<open>extract_links, get_author_pages, author_to_all_works_url\<close>

definition extract_links :: "env \<Rightarrow> string \<Rightarrow> string \<Rightarrow> string list" where
  "extract_links e html base_url =
     map (urljoin e base_url) (filter (\<lambda>href. href \<noteq> []) (map strip (hrefs e html)))"

text \<open>Deduplication that keeps the order: the loop with \<open>seen\<close> and \<open>uniq\<close>.\<close>

fun uniq_loop :: "string list \<Rightarrow> string set \<Rightarrow> string list \<Rightarrow> string list" where
  "uniq_loop [] seen uniq = uniq"
| "uniq_loop (u # us) seen uniq =
     (if u \<notin> seen then uniq_loop us (insert u seen) (uniq @ [u])
      else uniq_loop us seen uniq)"

definition get_author_pages :: "env \<Rightarrow> string list outcome" where
  "get_author_pages e =
     (case fetch_html e AUTHORS_PAGE of
        (evs, Inl x) \<Rightarrow> (evs, Inl x)
      | (evs, Inr html) \<Rightarrow>
          if falsy html then (evs, Inl RuntimeError)
          else
            (let links = extract_links e (the html) AUTHORS_PAGE;
                 author_pages = filter (re_match AUTHOR_PAGE_RE) links
             in (evs, Inr (uniq_loop author_pages {} []))))"

definition author_to_all_works_url :: "string \<Rightarrow> string" where
  "author_to_all_works_url author_index_url =
     replace author_index_url ''/index.html'' ''/l.all/index.html''"

subsection \<open>collect_text_page_urls\<close>

text \<open>The inner loop over the links of one page; it returns \<open>(collected, seen)\<close>.\<close>

fun collect_links :: "int \<Rightarrow> string list \<Rightarrow> string list \<Rightarrow> string set
    \<Rightarrow> string list \<times> string set" where
  "collect_links limit [] collected seen = (collected, seen)"
| "collect_links limit (u # us) collected seen =
     (if re_match TEXT_PAGE_RE u \<and> u \<notin> seen then
        (if int (length (collected @ [u])) \<ge> limit then (collected @ [u], insert u seen)
         else collect_links limit us (collected @ [u]) (insert u seen))
      else collect_links limit us collected seen)"

text \<open>The outer loop over the author pages, \<open>i\<close> counting from 1.\<close>

fun collect_authors :: "env \<Rightarrow> int \<Rightarrow> nat \<Rightarrow> string list \<Rightarrow> string list \<Rightarrow> string set
    \<Rightarrow> string list outcome" where
  "collect_authors e limit i [] collected seen = ([], Inr collected)"
| "collect_authors e limit i (author_url # rest) collected seen =
     (if int (length collected) \<ge> limit then ([], Inr collected)
      else
        (let all_works_url = author_to_all_works_url author_url in
         case fetch_html e all_works_url of
           (evs, Inl x) \<Rightarrow> (evs, Inl x)
         | (evs, Inr html) \<Rightarrow>
             if falsy html then after evs (collect_authors e limit (i + 1) rest collected seen)
             else
               (let links = extract_links e (the html) all_works_url;
                    cs = collect_links limit links collected seen;
                    progress = (if i mod 10 = 0
                                then [Print (InfoProgress i (length (fst cs)))] else [])
                in after (evs @ progress)
                     (collect_authors e limit (i + 1) rest (fst cs) (snd cs)))))"

definition collect_text_page_urls :: "env \<Rightarrow> int \<Rightarrow> string list outcome" where
  "collect_text_page_urls e limit =
     (case get_author_pages e of
        (evs, Inl x) \<Rightarrow> (evs, Inl x)
      | (evs, Inr author_pages) \<Rightarrow>
          after (evs @ [Print (InfoAuthors (length author_pages))])
            (collect_authors e limit 1 author_pages [] {}))"

subsection \<open>download_pages\<close>

text \<open>
  The loop of \<open>download_pages\<close>, with \<open>saved\<close> and \<open>index_lines\<close>; \<open>save_text\<close> is
  the event \<open>WriteFile\<close>.
\<close>

fun download_loop :: "env \<Rightarrow> int \<Rightarrow> string list \<Rightarrow> nat \<Rightarrow> string list
    \<Rightarrow> (nat \<times> string list) outcome" where
  "download_loop e need [] saved index_lines = ([], Inr (saved, index_lines))"
| "download_loop e need (url # urls) saved index_lines =
     (if int saved \<ge> need then ([], Inr (saved, index_lines))
      else
        (case fetch_html e url of
           (evs, Inl x) \<Rightarrow> (evs, Inl x)
         | (evs, Inr html) \<Rightarrow>
             if falsy html then after evs (download_loop e need urls saved index_lines)
             else if length (the html) < 1000 then
               after (evs @ [Print (SkipTooSmall url)])
                 (download_loop e need urls saved index_lines)
             else
               (let num = saved + 1;
                    out_file = path_join OUT_DIR (str_nat num @ ''.txt'')
                in after (evs @ [WriteFile out_file (the html), Print (OkSaved num url)])
                     (download_loop e need urls (saved + 1)
                        (index_lines @ [str_nat num @ [CHR 0x09] @ url])))))"

definition index_text :: "string list \<Rightarrow> string" where
  \<comment> \<open>\<open>"\n".join(index_lines) + ("\n" if index_lines else "")\<close>\<close>
  "index_text index_lines =
     join [CHR 0x0A] index_lines @ (if index_lines \<noteq> [] then [CHR 0x0A] else [])"

definition download_pages :: "env \<Rightarrow> string list \<Rightarrow> int \<Rightarrow> nat outcome" where
  "download_pages e urls need =
     (case download_loop e need urls 0 [] of
        (evs, Inl x) \<Rightarrow> (MakeDirs OUT_DIR # evs, Inl x)
      | (evs, Inr (saved, index_lines)) \<Rightarrow>
          (MakeDirs OUT_DIR # evs @ [WriteFile INDEX_TXT (index_text index_lines)],
           Inr saved))"

subsection \<open>main\<close>

definition main :: "env \<Rightarrow> unit outcome" where
  "main e =
     (case collect_text_page_urls e 1200 of
        (evs, Inl x) \<Rightarrow> (evs, Inl x)
      | (evs, Inr urls) \<Rightarrow>
          (let listed = [WriteFile URLS_TXT (concat (map (\<lambda>u. u @ [CHR 0x0A]) urls)),
                         Print (InfoUrlsSaved (length urls))]
           in case download_pages e urls MIN_PAGES_TO_DOWNLOAD of
                (evs2, Inl x) \<Rightarrow> (evs @ listed @ evs2, Inl x)
              | (evs2, Inr saved) \<Rightarrow>
                  (evs @ listed @ evs2 @
                     [Print (if int saved < MIN_PAGES_TO_DOWNLOAD then DoneShort saved
                             else DoneEnough saved)],
                   Inr ())))"

subsection \<open>The file system\<close>

text \<open>
  Files are a map from path to content; \<open>open(path, "w")\<close> followed by \<open>write\<close>
  replaces the content. The other events leave the files as they are.
\<close>

type_synonym files = "string \<rightharpoonup> string"

fun apply_event :: "files \<Rightarrow> event \<Rightarrow> files" where
  "apply_event fs (WriteFile path content) = fs(path \<mapsto> content)"
| "apply_event fs _ = fs"

definition run_events :: "files \<Rightarrow> event list \<Rightarrow> files" where
  "run_events fs evs = foldl apply_event fs evs"

section \<open>Notions used to state the properties\<close>

definition qualifies :: "env \<Rightarrow> string \<Rightarrow> bool" where
  "qualifies e url =
     (case snd (fetch_html e url) of Inr (Some html) \<Rightarrow> 1000 \<le> length html | _ \<Rightarrow> False)"

definition body_of :: "env \<Rightarrow> string \<Rightarrow> string" where
  "body_of e url = (case snd (fetch_html e url) of Inr (Some html) \<Rightarrow> html | _ \<Rightarrow> [])"

definition raises :: "env \<Rightarrow> string \<Rightarrow> bool" where
  "raises e url = (case snd (fetch_html e url) of Inl x \<Rightarrow> True | Inr html \<Rightarrow> False)"

definition doc_file :: "nat \<Rightarrow> string" where
  "doc_file num = path_join OUT_DIR (str_nat num @ ''.txt'')"

definition index_line :: "nat \<Rightarrow> string \<Rightarrow> string" where
  "index_line num url = str_nat num @ [CHR 0x09] @ url"

fun written :: "event list \<Rightarrow> (string \<times> string) list" where
  "written [] = []"
| "written (WriteFile path content # evs) = (path, content) # written evs"
| "written (ev # evs) = written evs"

fun fetched :: "event list \<Rightarrow> string list" where
  "fetched [] = []"
| "fetched (HttpGet url # evs) = url # fetched evs"
| "fetched (ev # evs) = fetched evs"

definition saved_urls :: "env \<Rightarrow> string list \<Rightarrow> int \<Rightarrow> string list" where
  "saved_urls e urls need = take (nat need) (filter (qualifies e) urls)"

text \<open>A string without its last \<open>n\<close> characters.\<close>

definition butlast_n :: "nat \<Rightarrow> string \<Rightarrow> string" where
  "butlast_n n s = take (length s - n) s"

section \<open>An example world\<close>

definition html_page :: "bytes list \<Rightarrow> response" where
  "html_page cs = \<lparr>content_type = Some ''Text/HTML'', chunks = cs,
                    stream_end = StreamEnds, encoding = Some ''utf-8''\<rparr>"

definition demo_long_bytes :: bytes where
  "demo_long_bytes = replicate 1000 0"

definition demo_author :: string where
  "demo_author = ''https://ilibrary.ru/author/a/index.html''"

definition demo_works :: string where
  "demo_works = ''https://ilibrary.ru/author/a/l.all/index.html''"

definition demo_text1 :: string where
  "demo_text1 = ''https://ilibrary.ru/text/1/p.1/index.html''"

definition demo_text2 :: string where
  "demo_text2 = ''https://ilibrary.ru/text/2/p.1/index.html''"

definition demo_text3 :: string where
  "demo_text3 = ''https://ilibrary.ru/text/3/p.1/index.html''"

definition demo_get :: "string \<Rightarrow> get_result" where
  "demo_get url =
     (if url = AUTHORS_PAGE then Got (html_page [[0]])
      else if url = demo_works then Got (html_page [[0], [], [0]])
      else if url = demo_text1 then Got (html_page [demo_long_bytes])
      else if url = demo_text2 then Got ((html_page [[0]])\<lparr>content_type := Some ''image/png''\<rparr>)
      else if url = demo_text3 then Got (html_page [[0, 0, 0]])
      else RequestException)"

definition demo_hrefs :: "string \<Rightarrow> string list" where
  "demo_hrefs html =
     (if html = ''x'' then [''/author/a/index.html'', '' /about.html '', ''  '']
      else if html = ''xx'' then
        [''/text/1/p.1/index.html'', ''/text/2/p.1/index.html'', ''/text/1/p.1/index.html'',
         ''/text/3/p.1/index.html'', ''/text/3/index.html'']
      else [])"

definition demo_env :: env where
  "demo_env = \<lparr>http_get = demo_get,
                decode = (\<lambda>enc raw. Some (map (\<lambda>b. CHR ''x'') raw)),
                decode_utf8 = map (\<lambda>b. CHR ''x''),
                hrefs = demo_hrefs,
                urljoin = (\<lambda>base href. BASE @ href)\<rparr>"

definition demo_long_body :: string where
  "demo_long_body = map (\<lambda>b. CHR ''x'') demo_long_bytes"

text \<open>A file system with no files.\<close>

definition no_files :: files where
  "no_files = Map.empty"

text \<open>A file system where the index path holds the index of an earlier run.\<close>

definition old_index :: files where
  "old_index = no_files(INDEX_TXT \<mapsto> ''7'' @ [CHR 0x09] @ demo_text3 @ [CHR 0x0A])"

text \<open>
  What \<open>fetch_html\<close> returns for a response that was read to its end: the decoding of
  all its bytes (lines 98 to 103 of the source).
\<close>

definition decoded :: "env \<Rightarrow> response \<Rightarrow> string" where
  "decoded e resp =
     (let raw = concat (chunks resp);
          enc = (case encoding resp of None \<Rightarrow> ''utf-8''
                 | Some n \<Rightarrow> if n = [] then ''utf-8'' else n)
      in case decode e enc raw of Some s \<Rightarrow> s | None \<Rightarrow> decode_utf8 e raw)"

text \<open>
  A world for the size limit: a page of exactly \<open>MAX_BYTES\<close> bytes and a page of one
  byte more, both in chunks of at most 8192 bytes.
\<close>

definition full_page :: response where
  "full_page = html_page (replicate 610 (replicate 8192 0) @ [replicate 2880 0])"

definition over_page :: response where
  "over_page = html_page (replicate 610 (replicate 8192 0) @ [replicate 2881 0])"

definition size_env :: env where
  "size_env = demo_env\<lparr>http_get :=
     (\<lambda>url. if url = demo_text1 then Got full_page
            else if url = demo_text2 then Got over_page
            else RequestException)\<rparr>"

text \<open>A world where every page is served as HTML with an empty body.\<close>

definition empty_env :: env where
  "empty_env = demo_env\<lparr>http_get := (\<lambda>url. Got (html_page []))\<rparr>"

text \<open>
  The example world, but the connection drops while the works page of the author is
  read: one chunk arrives, then \<open>iter_content\<close> raises.
\<close>

definition broken_env :: env where
  "broken_env = demo_env\<lparr>http_get :=
     (\<lambda>url. if url = demo_works then Got ((html_page [[0]])\<lparr>stream_end := StreamBreaks\<rparr>)
            else demo_get url)\<rparr>"

text \<open>
  The text-page links that the collector reads on the works page of an author, in the
  order of the page; none when the page is not fetched or is empty.
\<close>

definition text_links :: "env \<Rightarrow> string \<Rightarrow> string list" where
  "text_links e author_url =
     (let all_works_url = author_to_all_works_url author_url in
      case snd (fetch_html e all_works_url) of
        Inr (Some html) \<Rightarrow>
          if html = [] then []
          else filter (re_match TEXT_PAGE_RE) (extract_links e html all_works_url)
      | _ \<Rightarrow> [])"

text \<open>All of them, author after author: the order of discovery.\<close>

definition discovered :: "env \<Rightarrow> string list" where
  "discovered e =
     (case snd (get_author_pages e) of
        Inr author_pages \<Rightarrow> concat (map (text_links e) author_pages)
      | Inl x \<Rightarrow> [])"

text \<open>A list without its repetitions: every element stays where it occurs first.\<close>

definition first_seen :: "'a list \<Rightarrow> 'a list" where
  "first_seen xs = rev (remdups (rev xs))"

text \<open>The elements of a list that are new with respect to a set, each once.\<close>

fun fresh :: "'a set \<Rightarrow> 'a list \<Rightarrow> 'a list" where
  "fresh seen [] = []"
| "fresh seen (x # xs) = (if x \<in> seen then fresh seen xs else x # fresh (insert x seen) xs)"

section \<open>Properties\<close>

declare str_nat.simps [simp del]

lemma fst_after [simp]: "fst (after evs r) = evs @ fst r"
  by (simp add: after_def)

lemma snd_after [simp]: "snd (after evs r) = snd r"
  by (simp add: after_def)

lemma after_eq_iff: "after evs r = (evs', x) \<longleftrightarrow> (evs' = evs @ fst r \<and> snd r = x)"
  by (cases r) (auto simp: after_def)

lemma written_append [simp]: "written (xs @ ys) = written xs @ written ys"
  by (induction xs rule: written.induct) simp_all

lemma fetched_append [simp]: "fetched (xs @ ys) = fetched xs @ fetched ys"
  by (induction xs rule: fetched.induct) simp_all

lemma read_body_written [simp]: "written (fst (read_body url cs fin n acc)) = []"
  by (induction url cs fin n acc rule: read_body.induct) (simp_all add: Let_def)

lemma read_body_fetched [simp]: "fetched (fst (read_body url cs fin n acc)) = []"
  by (induction url cs fin n acc rule: read_body.induct) (simp_all add: Let_def)

lemma read_body_written_eq: "read_body url cs fin n acc = (evs, r) \<Longrightarrow> written evs = []"
  using read_body_written [of url cs fin n acc] by simp

lemma read_body_fetched_eq: "read_body url cs fin n acc = (evs, r) \<Longrightarrow> fetched evs = []"
  using read_body_fetched [of url cs fin n acc] by simp

lemma fetch_html_written [simp]: "written (fst (fetch_html e url)) = []"
  by (auto simp: fetch_html_def Let_def dest: read_body_written_eq
        split: get_result.splits prod.splits read_result.splits)

lemma fetch_html_fetched [simp]: "fetched (fst (fetch_html e url)) = [url]"
  by (auto simp: fetch_html_def Let_def dest: read_body_fetched_eq
        split: get_result.splits prod.splits read_result.splits)

lemma download_loop_step:
  "download_loop e need (url # urls) saved idx =
     (if int saved \<ge> need then ([], Inr (saved, idx))
      else if raises e url then (fst (fetch_html e url), Inl (projl (snd (fetch_html e url))))
      else if qualifies e url then
        after (fst (fetch_html e url) @
               [WriteFile (doc_file (Suc saved)) (body_of e url), Print (OkSaved (Suc saved) url)])
          (download_loop e need urls (Suc saved) (idx @ [index_line (Suc saved) url]))
      else if body_of e url = [] then
        after (fst (fetch_html e url)) (download_loop e need urls saved idx)
      else after (fst (fetch_html e url) @ [Print (SkipTooSmall url)])
             (download_loop e need urls saved idx))"
  by (cases "fetch_html e url")
    (auto simp: raises_def qualifies_def body_of_def falsy_def doc_file_def index_line_def Let_def
          split: sum.splits option.splits)


declare download_loop.simps(2) [simp del]

lemma nat_diff_Suc: "int saved < need \<Longrightarrow> nat (need - int saved) = Suc (nat (need - int (Suc saved)))"
  by simp

lemma download_loop_Inr:
  "download_loop e need urls saved idx = (evs, Inr (k, idx')) \<Longrightarrow>
     k = saved + length (take (nat (need - int saved)) (filter (qualifies e) urls)) \<and>
     idx' = idx @ map2 index_line [Suc saved..<Suc k]
                    (take (nat (need - int saved)) (filter (qualifies e) urls)) \<and>
     written evs = map2 (\<lambda>i u. (doc_file i, body_of e u)) [Suc saved..<Suc k]
                    (take (nat (need - int saved)) (filter (qualifies e) urls))"
proof (induction urls arbitrary: saved idx evs)
  case Nil
  then show ?case by simp
next
  case (Cons url urls)
  note run = Cons.prems
  show ?case
  proof (cases "int saved \<ge> need")
    case True
    with run show ?thesis by (simp add: download_loop_step)
  next
    case quota: False
    then have lt: "int saved < need" by simp
    have no_raise: "\<not> raises e url"
      using run quota by (auto simp: download_loop_step)
    show ?thesis
    proof (cases "qualifies e url")
      case True
      let ?r = "download_loop e need urls (Suc saved) (idx @ [index_line (Suc saved) url])"
      from run quota no_raise True
      have evs: "evs = (fst (fetch_html e url) @
                 [WriteFile (doc_file (Suc saved)) (body_of e url), Print (OkSaved (Suc saved) url)])
                 @ fst ?r"
        and res: "snd ?r = Inr (k, idx')"
        by (simp_all add: download_loop_step after_eq_iff)
      from res have "?r = (fst ?r, Inr (k, idx'))" by (simp add: prod_eq_iff)
      from Cons.IH [OF this]
      have k: "k = Suc saved + length (take (nat (need - int (Suc saved))) (filter (qualifies e) urls))"
        and idx: "idx' = (idx @ [index_line (Suc saved) url]) @ map2 index_line [Suc (Suc saved)..<Suc k]
                    (take (nat (need - int (Suc saved))) (filter (qualifies e) urls))"
        and wr: "written (fst ?r) = map2 (\<lambda>i u. (doc_file i, body_of e u)) [Suc (Suc saved)..<Suc k]
                    (take (nat (need - int (Suc saved))) (filter (qualifies e) urls))"
        by blast+
      have tk: "take (nat (need - int saved)) (filter (qualifies e) (url # urls)) =
                url # take (nat (need - int (Suc saved))) (filter (qualifies e) urls)"
        using True nat_diff_Suc [OF lt] by simp
      have "Suc saved < Suc k" using k by simp
      then have up: "[Suc saved..<Suc k] = Suc saved # [Suc (Suc saved)..<Suc k]"
        by (rule upt_conv_Cons)
      show ?thesis
        unfolding tk up using k idx wr evs by simp
    next
      case False
      let ?r = "download_loop e need urls saved idx"
      from run quota no_raise False
      have res: "snd ?r = Inr (k, idx')" and wr: "written evs = written (fst ?r)"
        by (auto simp: download_loop_step after_eq_iff split: if_splits)
      from res have "?r = (fst ?r, Inr (k, idx'))" by (simp add: prod_eq_iff)
      from Cons.IH [OF this] show ?thesis
        using False wr by simp
    qed
  qed
qed



subsection \<open>Runs in the example world\<close>

lemma length_demo_long_bytes [simp]: "length demo_long_bytes = 1000"
  by (simp add: demo_long_bytes_def)

lemma demo_long_bytes_nonempty [simp]: "demo_long_bytes \<noteq> []"
  by (simp add: demo_long_bytes_def)

lemma html_page_is_html: "contains (lower ''Text/HTML'') ''text/html''"
  by (simp add: lower_def lower_char_def upper_chars_def lower_chars_def)

lemma png_not_html: "\<not> contains (lower ''image/png'') ''text/html''"
  by (simp add: lower_def lower_char_def upper_chars_def lower_chars_def)

lemma demo_env_fields [simp]:
  "http_get demo_env = demo_get"
  "decode demo_env enc raw = Some (map (\<lambda>b. CHR ''x'') raw)"
  "hrefs demo_env = demo_hrefs"
  "urljoin demo_env base href = BASE @ href"
  by (simp_all add: demo_env_def)

lemmas demo_simps = demo_get_def html_page_def fetch_html_def AUTHORS_PAGE_def BASE_def
  demo_works_def demo_text1_def demo_text2_def demo_text3_def MAX_BYTES_def
  html_page_is_html png_not_html

lemma fetch_seed: "fetch_html demo_env AUTHORS_PAGE =
   ([Sleep, HttpGet AUTHORS_PAGE, ReadChunk [0], CloseResponse], Inr (Some ''x''))"
  by (simp add: demo_simps)

lemma fetch_works: "fetch_html demo_env demo_works =
   ([Sleep, HttpGet demo_works, ReadChunk [0], ReadChunk [], ReadChunk [0], CloseResponse], Inr (Some ''xx''))"
  by (simp add: demo_simps)

lemma fetch_text1: "fetch_html demo_env demo_text1 =
   ([Sleep, HttpGet demo_text1, ReadChunk demo_long_bytes, CloseResponse], Inr (Some demo_long_body))"
  by (simp add: demo_simps demo_long_body_def)

lemma fetch_text2: "fetch_html demo_env demo_text2 =
   ([Sleep, HttpGet demo_text2, CloseResponse, Print (SkipNotHtml demo_text2 ''image/png'')], Inr None)"
  by (simp add: demo_simps lower_def lower_char_def upper_chars_def lower_chars_def)

lemma fetch_text3: "fetch_html demo_env demo_text3 =
   ([Sleep, HttpGet demo_text3, ReadChunk [0,0,0], CloseResponse], Inr (Some ''xxx''))"
  by (simp add: demo_simps)

lemma demo_authors: "get_author_pages demo_env =
   ([Sleep, HttpGet AUTHORS_PAGE, ReadChunk [0], CloseResponse], Inr [demo_author])"
  unfolding get_author_pages_def fetch_seed
  by (simp add: falsy_def extract_links_def demo_hrefs_def strip_def is_space_def
      BASE_def re_match_def AUTHOR_PAGE_RE_def Opt_def Plus_def demo_author_def)

lemma works_of_author: "author_to_all_works_url demo_author = demo_works"
  by (simp add: author_to_all_works_url_def demo_author_def demo_works_def)

lemma demo_collect: "collect_text_page_urls demo_env 1200 =
   ([Sleep, HttpGet AUTHORS_PAGE, ReadChunk [0], CloseResponse, Print (InfoAuthors 1),
     Sleep, HttpGet demo_works, ReadChunk [0], ReadChunk [], ReadChunk [0], CloseResponse],
    Inr [demo_text1, demo_text2, demo_text3])"
  unfolding collect_text_page_urls_def demo_authors
  by (simp add: works_of_author fetch_works after_def falsy_def extract_links_def
      demo_hrefs_def strip_def is_space_def
      BASE_def re_match_def TEXT_PAGE_RE_def Opt_def Plus_def demo_text1_def demo_text2_def demo_text3_def)

subsection \<open>The works-list URL\<close>

text \<open>
  C8. For an author-index URL that matches the author pattern, the works-list URL should be
  that URL with its trailing \<open>/index.html\<close> replaced by \<open>/l.all/index.html\<close> and the
  rest unchanged. \<open>str.replace\<close> replaces every occurrence: for the author slug
  \<open>index.html\<close> the URL matches the pattern, and the slug is rewritten as well.
\<close>

theorem author_to_all_works_url_rewrites_slug:
  "re_match AUTHOR_PAGE_RE ''https://ilibrary.ru/author/index.html/index.html'' \<and>
   author_to_all_works_url ''https://ilibrary.ru/author/index.html/index.html'' =
     ''https://ilibrary.ru/author/l.all/index.html/l.all/index.html'' \<and>
   author_to_all_works_url ''https://ilibrary.ru/author/index.html/index.html'' \<noteq>
     butlast_n 11 ''https://ilibrary.ru/author/index.html/index.html'' @ ''/l.all/index.html''"
proof -
  have "re_match AUTHOR_PAGE_RE ''https://ilibrary.ru/author/index.html/index.html''"
    by (simp add: re_match_def AUTHOR_PAGE_RE_def Opt_def Plus_def)
  moreover have "author_to_all_works_url ''https://ilibrary.ru/author/index.html/index.html'' =
     ''https://ilibrary.ru/author/l.all/index.html/l.all/index.html''"
    by (simp add: author_to_all_works_url_def)
  ultimately show ?thesis
    by (simp add: butlast_n_def)
qed

subsection \<open>Decimal numerals and file names\<close>

lemma digit_char_code: "d < 10 \<Longrightarrow> of_char (digit_char d) = (48 + d :: nat)"
proof -
  assume "d < 10"
  then have "d = 0 \<or> d = 1 \<or> d = 2 \<or> d = 3 \<or> d = 4 \<or> d = 5 \<or> d = 6 \<or> d = 7 \<or> d = 8 \<or> d = 9"
    by arith
  then show ?thesis
    by (auto simp: digit_char_def)
qed

lemma digit_char_not_slash: "d < 10 \<Longrightarrow> digit_char d \<noteq> CHR ''/''"
  using digit_char_code [of d] by auto

lemma str_nat_value:
  "foldl (\<lambda>a c. 10 * a + (of_char c - 48)) 0 (str_nat n) = n"
proof (induction n rule: str_nat.induct)
  case (1 n)
  show ?case
  proof (cases "n < 10")
    case True
    then show ?thesis
      by (subst str_nat.simps) (simp add: digit_char_code)
  next
    case False
    then have "foldl (\<lambda>a c. 10 * a + (of_char c - 48)) 0 (str_nat (n div 10)) = n div 10"
      using "1.IH" by simp
    then show ?thesis
      using False by (subst str_nat.simps) (simp add: digit_char_code)
  qed
qed

lemma str_nat_inj: "str_nat a = str_nat b \<Longrightarrow> a = b"
  by (metis str_nat_value)

lemma str_nat_head: "str_nat n \<noteq> [] \<and> hd (str_nat n) \<noteq> CHR ''/''"
proof (induction n rule: str_nat.induct)
  case (1 n)
  show ?case
  proof (cases "n < 10")
    case True
    then show ?thesis
      by (subst (1 2) str_nat.simps) (simp add: digit_char_not_slash)
  next
    case False
    then show ?thesis
      using "1.IH" by (subst (1 2) str_nat.simps) simp
  qed
qed

lemma doc_file_eq: "doc_file num = ''./task1/dump/'' @ str_nat num @ ''.txt''"
  using str_nat_head [of num] by (simp add: doc_file_def path_join_def OUT_DIR_def)

lemma doc_file_inj: "doc_file a = doc_file b \<Longrightarrow> a = b"
  by (simp add: doc_file_eq str_nat_inj)

lemma distinct_doc_files: "distinct (map doc_file [i..<j])"
  by (simp add: distinct_map inj_on_def doc_file_inj)

lemma doc_file_not_index: "doc_file num \<noteq> INDEX_TXT"
  by (simp add: doc_file_eq INDEX_TXT_def)

subsection \<open>Numbering of the saved files\<close>

lemma download_pages_Inr:
  assumes "snd (download_pages e urls need) = Inr k"
  shows "snd (download_loop e need urls 0 []) =
           Inr (k, map2 index_line [1..<Suc k] (saved_urls e urls need))"
    and "k = length (saved_urls e urls need)"
    and "written (fst (download_loop e need urls 0 [])) =
           map2 (\<lambda>num url. (doc_file num, body_of e url)) [1..<Suc k] (saved_urls e urls need)"
    and "fst (download_pages e urls need) =
           MakeDirs OUT_DIR # fst (download_loop e need urls 0 []) @
           [WriteFile INDEX_TXT (index_text (map2 index_line [1..<Suc k] (saved_urls e urls need)))]"
proof -
  obtain evs r where run: "download_loop e need urls 0 [] = (evs, r)"
    by (cases "download_loop e need urls 0 []")
  with assms obtain idx where r: "r = Inr (k, idx)"
    by (cases r) (auto simp: download_pages_def split: prod.splits)
  from download_loop_Inr [OF run [unfolded r]]
  have facts: "k = length (saved_urls e urls need)"
    "idx = map2 index_line [1..<Suc k] (saved_urls e urls need)"
    "written evs = map2 (\<lambda>num url. (doc_file num, body_of e url)) [1..<Suc k] (saved_urls e urls need)"
    by (simp_all add: saved_urls_def)
  show "k = length (saved_urls e urls need)" by (rule facts)
  show "snd (download_loop e need urls 0 []) =
           Inr (k, map2 index_line [1..<Suc k] (saved_urls e urls need))"
    using run r facts by simp
  show "written (fst (download_loop e need urls 0 [])) =
           map2 (\<lambda>num url. (doc_file num, body_of e url)) [1..<Suc k] (saved_urls e urls need)"
    using run facts by simp
  show "fst (download_pages e urls need) =
           MakeDirs OUT_DIR # fst (download_loop e need urls 0 []) @
           [WriteFile INDEX_TXT (index_text (map2 index_line [1..<Suc k] (saved_urls e urls need)))]"
    using run r facts by (simp add: download_pages_def)
qed

text \<open>
  C1. A run of \<open>download_pages\<close> that returns \<open>k\<close> writes the document files numbered
  \<open>1, \<dots>, k\<close>, in this order and each once, then the index; the index has one line for
  each of these files, with the same number and the URL the file came from.
\<close>

theorem download_pages_sequence:
  assumes "snd (download_pages e urls need) = Inr k"
  shows "length (saved_urls e urls need) = k \<and>
         written (fst (download_pages e urls need)) =
           map2 (\<lambda>num url. (doc_file num, body_of e url)) [1..<Suc k] (saved_urls e urls need) @
           [(INDEX_TXT, index_text (map2 index_line [1..<Suc k] (saved_urls e urls need)))] \<and>
         distinct (map doc_file [1..<Suc k]) \<and>
         INDEX_TXT \<notin> set (map doc_file [1..<Suc k])"
proof -
  note facts = download_pages_Inr [OF assms]
  have "written (fst (download_pages e urls need)) =
           map2 (\<lambda>num url. (doc_file num, body_of e url)) [1..<Suc k] (saved_urls e urls need) @
           [(INDEX_TXT, index_text (map2 index_line [1..<Suc k] (saved_urls e urls need)))]"
    by (simp add: facts(4) facts(3))
  moreover have "INDEX_TXT \<notin> set (map doc_file [1..<Suc k])"
    by (auto simp: doc_file_not_index [symmetric])
  moreover have "distinct (map doc_file [1..<Suc k])"
    by (rule distinct_doc_files)
  moreover have "length (saved_urls e urls need) = k"
    by (rule facts(2) [symmetric])
  ultimately show ?thesis
    by blast
qed

lemma demo_long_body_facts [simp]: "length demo_long_body = 1000" "demo_long_body \<noteq> []"
  by (simp_all add: demo_long_body_def)

lemma str_nat_small [simp]: "str_nat (Suc 0) = ''1''" "str_nat 1 = ''1''" "str_nat 2 = ''2''"
  by (simp_all add: str_nat.simps digit_char_def)

lemma demo_download:
  "download_pages demo_env [demo_text1, demo_text2, demo_text3] 100 =
     ([MakeDirs OUT_DIR,
       Sleep, HttpGet demo_text1, ReadChunk demo_long_bytes, CloseResponse,
       WriteFile ''./task1/dump/1.txt'' demo_long_body, Print (OkSaved 1 demo_text1),
       Sleep, HttpGet demo_text2, CloseResponse, Print (SkipNotHtml demo_text2 ''image/png''),
       Sleep, HttpGet demo_text3, ReadChunk [0, 0, 0], CloseResponse,
       Print (SkipTooSmall demo_text3),
       WriteFile INDEX_TXT (''1'' @ [CHR 0x09] @ demo_text1 @ [CHR 0x0A])],
      Inr 1)"
  by (simp add: download_pages_def download_loop.simps(2) fetch_text1 fetch_text2 fetch_text3
      falsy_def after_def path_join_def OUT_DIR_def index_text_def)

theorem download_pages_sequence_witness:
  "snd (download_pages demo_env [demo_text1, demo_text2, demo_text3] 100) = Inr 1 \<and>
   written (fst (download_pages demo_env [demo_text1, demo_text2, demo_text3] 100)) =
     [(''./task1/dump/1.txt'', demo_long_body),
      (INDEX_TXT, ''1'' @ [CHR 0x09] @ demo_text1 @ [CHR 0x0A])] \<and>
   length (saved_urls demo_env [demo_text1, demo_text2, demo_text3] 100) = 1"
proof -
  have run: "snd (download_pages demo_env [demo_text1, demo_text2, demo_text3] 100) = Inr 1"
    by (simp add: demo_download)
  from download_pages_sequence [OF run] run show ?thesis
    by (simp add: demo_download)
qed

subsection \<open>The index file\<close>

lemma run_events_append: "run_events fs (xs @ ys) = run_events (run_events fs xs) ys"
  by (simp add: run_events_def)

lemma run_events_Cons: "run_events fs (ev # evs) = run_events (apply_event fs ev) evs"
  by (simp add: run_events_def)

lemma run_events_Nil [simp]: "run_events fs [] = fs"
  by (simp add: run_events_def)

lemma run_events_untouched:
  "path \<notin> fst ` set (written evs) \<Longrightarrow> run_events fs evs path = fs path"
proof (induction evs arbitrary: fs)
  case Nil
  then show ?case by simp
next
  case (Cons ev evs)
  then show ?case by (cases ev) (simp_all add: run_events_Cons)
qed

lemma written_take_prefix: "written (take n evs) = take (length (written (take n evs))) (written evs)"
proof (induction evs arbitrary: n)
  case Nil
  then show ?case by simp
next
  case (Cons ev evs)
  show ?case
  proof (cases n)
    case 0
    then show ?thesis by simp
  next
    case (Suc m)
    with Cons.IH [of m] show ?thesis by (cases ev) simp_all
  qed
qed

lemma join_lines:
  "join sep ls @ (if ls \<noteq> [] then sep else []) = concat (map (\<lambda>l. l @ sep) ls)"
  by (induction sep ls rule: join.induct) simp_all

lemma index_text_lines: "index_text ls = concat (map (\<lambda>l. l @ [CHR 0x0A]) ls)"
  using join_lines [of "[CHR 0x0A]" ls] by (simp add: index_text_def)

lemma concat_map2_empty:
  "(\<And>x y. g x y \<noteq> []) \<Longrightarrow> (concat (map2 g xs ys) = []) = (xs = [] \<or> ys = [])"
  by (induction xs ys rule: list_induct2') simp_all

lemma map_map2: "map f (map2 g xs ys) = map2 (\<lambda>x y. f (g x y)) xs ys"
  by (induction xs ys rule: list_induct2') simp_all

lemma download_loop_writes_docs:
  "fst ` set (written (fst (download_loop e need urls saved idx))) \<subseteq> range doc_file"
proof (induction urls arbitrary: saved idx)
  case Nil
  then show ?case by simp
next
  case (Cons url urls)
  then show ?case by (auto simp: download_loop_step)
qed

lemma download_loop_keeps_index:
  "INDEX_TXT \<notin> fst ` set (written (take n (fst (download_loop e need urls saved idx))))"
proof
  assume "INDEX_TXT \<in> fst ` set (written (take n (fst (download_loop e need urls saved idx))))"
  then have "INDEX_TXT \<in> fst ` set (written (fst (download_loop e need urls saved idx)))"
    using written_take_prefix [of n "fst (download_loop e need urls saved idx)"]
    by (metis (no_types, lifting) image_iff in_set_takeD)
  then obtain num where "INDEX_TXT = doc_file num"
    using download_loop_writes_docs [of e need urls saved idx] by auto
  then show False
    using doc_file_not_index [of num] by simp
qed

text \<open>
  C7. The index artifact after a completed download: one line for each saved page, in
  ascending order of the numbers, each the number, a tab and the URL, each ended by a
  newline (so the text is empty when nothing was saved, and ends with a newline otherwise);
  it replaces whatever the index path held before.
\<close>

theorem index_artifact_format:
  assumes "snd (download_pages e urls need) = Inr k"
  shows "run_events fs (fst (download_pages e urls need)) INDEX_TXT =
           Some (concat (map2 (\<lambda>num url. str_nat num @ [CHR 0x09] @ url @ [CHR 0x0A])
                   [1..<Suc k] (saved_urls e urls need))) \<and>
         length (saved_urls e urls need) = k \<and>
         (run_events fs (fst (download_pages e urls need)) INDEX_TXT = Some []) = (k = 0)"
proof -
  note facts = download_pages_Inr [OF assms]
  let ?lines = "map2 index_line [1..<Suc k] (saved_urls e urls need)"
  have len: "length (saved_urls e urls need) = k"
    by (rule facts(2) [symmetric])
  have "run_events fs (fst (download_pages e urls need)) INDEX_TXT = Some (index_text ?lines)"
    by (simp add: facts(4) run_events_append run_events_Cons)
  moreover have "index_text ?lines =
      concat (map2 (\<lambda>num url. str_nat num @ [CHR 0x09] @ url @ [CHR 0x0A])
                   [1..<Suc k] (saved_urls e urls need))"
    unfolding index_text_lines map_map2 by (simp add: index_line_def)
  moreover have "(concat (map2 (\<lambda>num url. str_nat num @ [CHR 0x09] @ url @ [CHR 0x0A])
                   [1..<Suc k] (saved_urls e urls need)) = []) = (k = 0)"
    using len by (subst concat_map2_empty) auto
  ultimately show ?thesis
    using len by simp
qed

theorem index_artifact_format_witness:
  "snd (download_pages demo_env [demo_text1, demo_text2, demo_text3] 100) = Inr 1 \<and>
   run_events old_index
      (fst (download_pages demo_env [demo_text1, demo_text2, demo_text3] 100)) INDEX_TXT =
     Some (''1'' @ [CHR 0x09] @ demo_text1 @ [CHR 0x0A])"
proof -
  have run: "snd (download_pages demo_env [demo_text1, demo_text2, demo_text3] 100) = Inr 1"
    by (simp add: demo_download)
  have sv: "saved_urls demo_env [demo_text1, demo_text2, demo_text3] 100 = [demo_text1]"
    by (simp add: saved_urls_def qualifies_def fetch_text1 fetch_text2 fetch_text3)
  from index_artifact_format [OF run, of old_index] run show ?thesis
    by (simp add: sv)
qed

subsection \<open>The quota\<close>


lemma demo_qualifies:
  "qualifies demo_env demo_text1" "\<not> qualifies demo_env demo_text2"
  "\<not> qualifies demo_env demo_text3"
  by (simp_all add: qualifies_def fetch_text1 fetch_text2 fetch_text3)



subsection \<open>When the index is written\<close>

lemma take_Cons_append: "n \<le> Suc (length xs) \<Longrightarrow> take n (a # xs @ ys) = take n (a # xs)"
  by (cases n) simp_all

text \<open>
  C9. At every intermediate state of the download loop, every document already written
  should have its index line written as well. The index lines are kept in the list
  \<open>index_lines\<close> and written after the loop: in the example run, after the first
  six events the first document is in its file and there is no index file.
\<close>

theorem download_index_not_durable:
  "6 < length (fst (download_pages demo_env [demo_text1, demo_text2, demo_text3] 100)) \<and>
   run_events no_files
     (take 6 (fst (download_pages demo_env [demo_text1, demo_text2, demo_text3] 100)))
     ''./task1/dump/1.txt'' = Some demo_long_body \<and>
   run_events no_files
     (take 6 (fst (download_pages demo_env [demo_text1, demo_text2, demo_text3] 100)))
     INDEX_TXT = None"
  by (simp add: demo_download run_events_def no_files_def INDEX_TXT_def)

text \<open>
  C9, as the code has it. In a run of \<open>download_pages\<close> that returns, at every
  intermediate state the index file is as it was before the run, and the documents written
  so far are the first ones of the final sequence; the index is written last, in one write,
  and then has the line of every document written.
\<close>

theorem index_written_after_loop:
  assumes "snd (download_pages e urls need) = Inr k"
    and "n < length (fst (download_pages e urls need))"
  shows "run_events fs (take n (fst (download_pages e urls need))) INDEX_TXT = fs INDEX_TXT \<and>
         written (take n (fst (download_pages e urls need))) =
           take (length (written (take n (fst (download_pages e urls need)))))
             (map2 (\<lambda>num url. (doc_file num, body_of e url)) [1..<Suc k]
                (saved_urls e urls need)) \<and>
         run_events fs (fst (download_pages e urls need)) INDEX_TXT =
           Some (index_text (map2 index_line [1..<Suc k] (saved_urls e urls need)))"
proof -
  note facts = download_pages_Inr [OF assms(1)]
  let ?evs = "fst (download_loop e need urls 0 [])"
  let ?w = "WriteFile INDEX_TXT (index_text (map2 index_line [1..<Suc k] (saved_urls e urls need)))"
  have n: "n \<le> Suc (length ?evs)"
    using assms(2) unfolding facts(4) by simp
  have tk: "take n (fst (download_pages e urls need)) = take n (MakeDirs OUT_DIR # ?evs)"
    unfolding facts(4) using n by (rule take_Cons_append)
  have final: "run_events fs (fst (download_pages e urls need)) INDEX_TXT =
           Some (index_text (map2 index_line [1..<Suc k] (saved_urls e urls need)))"
    unfolding facts(4) by (simp add: run_events_append run_events_Cons)
  show ?thesis
  proof (cases n)
    case 0
    then show ?thesis using final by simp
  next
    case (Suc m)
    have tk': "take n (fst (download_pages e urls need)) = MakeDirs OUT_DIR # take m ?evs"
      using tk unfolding Suc by simp
    have "run_events fs (take m ?evs) INDEX_TXT = fs INDEX_TXT"
      by (rule run_events_untouched) (rule download_loop_keeps_index)
    then have 1: "run_events fs (take n (fst (download_pages e urls need))) INDEX_TXT = fs INDEX_TXT"
      unfolding tk' by (simp add: run_events_Cons)
    have "written (take m ?evs) = take (length (written (take m ?evs))) (written ?evs)"
      by (rule written_take_prefix)
    then have 2: "written (take n (fst (download_pages e urls need))) =
           take (length (written (take n (fst (download_pages e urls need)))))
             (map2 (\<lambda>num url. (doc_file num, body_of e url)) [1..<Suc k]
                (saved_urls e urls need))"
      unfolding tk' facts(3) by simp
    from 1 2 final show ?thesis by blast
  qed
qed

theorem index_written_after_loop_witness:
  "snd (download_pages demo_env [demo_text1, demo_text2, demo_text3] 100) = Inr 1 \<and>
   run_events old_index
     (take 16 (fst (download_pages demo_env [demo_text1, demo_text2, demo_text3] 100)))
     INDEX_TXT = old_index INDEX_TXT \<and>
   written (take 16 (fst (download_pages demo_env [demo_text1, demo_text2, demo_text3] 100))) =
     [(''./task1/dump/1.txt'', demo_long_body)] \<and>
   run_events old_index
     (fst (download_pages demo_env [demo_text1, demo_text2, demo_text3] 100)) INDEX_TXT =
     Some (''1'' @ [CHR 0x09] @ demo_text1 @ [CHR 0x0A])"
proof -
  have run: "snd (download_pages demo_env [demo_text1, demo_text2, demo_text3] 100) = Inr 1"
    by (simp add: demo_download)
  have n: "16 < length (fst (download_pages demo_env [demo_text1, demo_text2, demo_text3] 100))"
    by (simp add: demo_download)
  have sv: "saved_urls demo_env [demo_text1, demo_text2, demo_text3] 100 = [demo_text1]"
    by (simp add: saved_urls_def demo_qualifies)
  have w: "written (take 16 (fst (download_pages demo_env [demo_text1, demo_text2, demo_text3] 100))) =
     [(''./task1/dump/1.txt'', demo_long_body)]"
    by (simp add: demo_download)
  from index_written_after_loop [OF run n, of old_index] run w show ?thesis
    by (simp add: sv index_text_def index_line_def)
qed

subsection \<open>The size limit of fetch_html\<close>

lemma concat_nonempty_chunks: "concat (filter (\<lambda>c. c \<noteq> []) cs) = concat cs"
  by (induction cs) simp_all

lemma read_body_result:
  "n \<le> MAX_BYTES \<Longrightarrow>
   snd (read_body url cs fin n acc) =
     (if MAX_BYTES < n + length (concat cs) then TooLarge
      else if fin = StreamBreaks then Broken
      else Complete (acc @ filter (\<lambda>c. c \<noteq> []) cs))"
  by (induction url cs fin n acc rule: read_body.induct) (auto simp: Let_def)

lemma read_body_too_large:
  "n \<le> MAX_BYTES \<Longrightarrow>
   (Print (SkipTooLarge url) \<in> set (fst (read_body url cs fin n acc))) =
     (MAX_BYTES < n + length (concat cs))"
  by (induction url cs fin n acc rule: read_body.induct) (auto simp: Let_def)

lemma fetch_html_result:
  assumes "http_get e url = Got resp" and "is_html resp"
  shows "snd (fetch_html e url) =
           (if MAX_BYTES < length (concat (chunks resp)) then Inr None
            else if stream_end resp = StreamBreaks then Inl StreamError
            else Inr (Some (decoded e resp)))"
proof -
  obtain evs r where rb: "read_body url (chunks resp) (stream_end resp) 0 [] = (evs, r)"
    by (cases "read_body url (chunks resp) (stream_end resp) 0 []")
  have r: "r = (if MAX_BYTES < length (concat (chunks resp)) then TooLarge
      else if stream_end resp = StreamBreaks then Broken
      else Complete (filter (\<lambda>c. c \<noteq> []) (chunks resp)))"
    using read_body_result [of 0 url "chunks resp" "stream_end resp" "[]"] rb by simp
  show ?thesis
    using assms rb r
    by (simp add: fetch_html_def is_html_def decoded_def Let_def concat_nonempty_chunks
        cong: option.case_cong)
qed

lemma fetch_html_too_large_event:
  assumes "http_get e url = Got resp" and "is_html resp"
  shows "(Print (SkipTooLarge url) \<in> set (fst (fetch_html e url))) =
           (MAX_BYTES < length (concat (chunks resp)))"
proof -
  obtain evs r where rb: "read_body url (chunks resp) (stream_end resp) 0 [] = (evs, r)"
    by (cases "read_body url (chunks resp) (stream_end resp) 0 []")
  have "(Print (SkipTooLarge url) \<in> set evs) = (MAX_BYTES < length (concat (chunks resp)))"
    using read_body_too_large [of 0 url "chunks resp" "stream_end resp" "[]"] rb by simp
  then show ?thesis
    using assms rb
    by (cases r) (simp_all add: fetch_html_def is_html_def Let_def)
qed

lemma download_loop_skip:
  assumes "snd (fetch_html e url) = Inr html" and "falsy html"
  shows "download_loop e need (url # urls) saved idx =
           (if need \<le> int saved then ([], Inr (saved, idx))
            else after (fst (fetch_html e url)) (download_loop e need urls saved idx))"
  using assms by (cases "fetch_html e url") (simp add: download_loop.simps(2))

lemma download_loop_at_quota:
  "need \<le> int saved \<Longrightarrow> download_loop e need urls saved idx = ([], Inr (saved, idx))"
  by (cases urls) (simp_all add: download_loop.simps(2))

lemma download_loop_skip_trace:
  assumes "snd (fetch_html e url) = Inr html" and "falsy html"
  shows "written (fst (download_loop e need (url # urls) saved idx)) =
           written (fst (download_loop e need urls saved idx))"
    and "snd (download_loop e need (url # urls) saved idx) =
           snd (download_loop e need urls saved idx)"
  unfolding download_loop_skip [OF assms]
  by (simp_all add: download_loop_at_quota)

text \<open>
  C4. For a response that is HTML: when the bytes of the body are more than
  \<open>MAX_BYTES\<close>, by one byte or more, \<open>fetch_html\<close> prints the too-large skip and returns
  \<open>None\<close>, and the downloader writes nothing for this URL and goes on as if the URL
  were not in the list; when they are at most \<open>MAX_BYTES\<close> there is no too-large skip,
  and the body returned when the stream ends is the decoding of all the bytes.
\<close>

theorem fetch_html_size_cap:
  assumes "http_get e url = Got resp" and "is_html resp"
  shows "snd (fetch_html e url) =
           (if MAX_BYTES < length (concat (chunks resp)) then Inr None
            else if stream_end resp = StreamBreaks then Inl StreamError
            else Inr (Some (decoded e resp))) \<and>
         (Print (SkipTooLarge url) \<in> set (fst (fetch_html e url))) =
           (MAX_BYTES < length (concat (chunks resp))) \<and>
         written (fst (fetch_html e url)) = [] \<and>
         (MAX_BYTES < length (concat (chunks resp)) \<longrightarrow>
            written (fst (download_loop e need (url # urls) saved idx)) =
              written (fst (download_loop e need urls saved idx)) \<and>
            snd (download_loop e need (url # urls) saved idx) =
              snd (download_loop e need urls saved idx))"
proof -
  note res = fetch_html_result [OF assms]
  have "MAX_BYTES < length (concat (chunks resp)) \<Longrightarrow>
            written (fst (download_loop e need (url # urls) saved idx)) =
              written (fst (download_loop e need urls saved idx)) \<and>
            snd (download_loop e need (url # urls) saved idx) =
              snd (download_loop e need urls saved idx)"
  proof -
    assume "MAX_BYTES < length (concat (chunks resp))"
    then have "snd (fetch_html e url) = Inr None"
      using res by simp
    moreover have "falsy None"
      by (simp add: falsy_def)
    ultimately show ?thesis
      using download_loop_skip_trace by blast
  qed
  then show ?thesis
    using res fetch_html_too_large_event [OF assms] by simp
qed

lemma size_env_fields:
  "http_get size_env demo_text1 = Got full_page"
  "http_get size_env demo_text2 = Got over_page"
  "decode size_env enc raw = Some (map (\<lambda>b. CHR ''x'') raw)"
  by (simp_all add: size_env_def demo_env_def demo_text1_def demo_text2_def)

lemma length_concat_replicate: "length (concat (replicate n xs)) = n * length xs"
  by (induction n) simp_all

lemma size_pages:
  "is_html full_page" "is_html over_page"
  "length (concat (chunks full_page)) = 5000000"
  "length (concat (chunks over_page)) = 5000001"
  "stream_end full_page = StreamEnds"
  by (simp_all add: is_html_def full_page_def over_page_def html_page_def html_page_is_html
      length_concat_replicate)

theorem fetch_html_size_cap_witness:
  "snd (fetch_html size_env demo_text2) = Inr None \<and>
   Print (SkipTooLarge demo_text2) \<in> set (fst (fetch_html size_env demo_text2)) \<and>
   snd (download_loop size_env 100 [demo_text2] 0 []) = Inr (0, []) \<and>
   written (fst (download_loop size_env 100 [demo_text2] 0 [])) = [] \<and>
   snd (fetch_html size_env demo_text1) = Inr (Some (decoded size_env full_page)) \<and>
   length (decoded size_env full_page) = 5000000 \<and>
   Print (SkipTooLarge demo_text1) \<notin> set (fst (fetch_html size_env demo_text1))"
proof -
  have len: "length (decoded size_env full_page) = 5000000"
    using size_pages(3) by (simp add: decoded_def size_env_fields Let_def)
  from fetch_html_size_cap [OF size_env_fields(2) size_pages(2), of 100 "[]" 0 "[]"]
       fetch_html_size_cap [OF size_env_fields(1) size_pages(1), of 100 "[]" 0 "[]"]
       len
  show ?thesis
    by (simp add: size_pages MAX_BYTES_def)
qed

subsection \<open>The content type\<close>



subsection \<open>Empty bodies\<close>

lemma get_author_pages_falsy:
  assumes "snd (fetch_html e AUTHORS_PAGE) = Inr html" and "falsy html"
  shows "get_author_pages e = (fst (fetch_html e AUTHORS_PAGE), Inl RuntimeError)"
  using assms by (cases "fetch_html e AUTHORS_PAGE") (simp add: get_author_pages_def)

lemma collect_authors_skip:
  assumes "snd (fetch_html e (author_to_all_works_url a)) = Inr html" and "falsy html"
  shows "collect_authors e limit i (a # rest) collected seen =
           (if limit \<le> int (length collected) then ([], Inr collected)
            else after (fst (fetch_html e (author_to_all_works_url a)))
                   (collect_authors e limit (i + 1) rest collected seen))"
  using assms by (cases "fetch_html e (author_to_all_works_url a)") (simp add: Let_def)

text \<open>
  C10. A fetch that returns an empty body is treated as one that returns \<open>None\<close>, at the
  three places that call \<open>fetch_html\<close>: at the seed page the run ends with the
  \<open>RuntimeError\<close> and has written nothing; in the collector and in the downloader the
  loop goes on with the next URL, with its lists, its set and its count as they were.
\<close>

theorem empty_body_as_failed_fetch:
  "(snd (fetch_html e AUTHORS_PAGE) = Inr html0 \<and> falsy html0 \<longrightarrow>
      get_author_pages e = (fst (fetch_html e AUTHORS_PAGE), Inl RuntimeError) \<and>
      snd (main e) = Inl RuntimeError \<and> written (fst (main e)) = []) \<and>
   (snd (fetch_html e (author_to_all_works_url a)) = Inr html1 \<and> falsy html1 \<longrightarrow>
      collect_authors e limit i (a # rest) collected seen =
        (if limit \<le> int (length collected) then ([], Inr collected)
         else after (fst (fetch_html e (author_to_all_works_url a)))
                (collect_authors e limit (i + 1) rest collected seen))) \<and>
   (snd (fetch_html e url) = Inr html2 \<and> falsy html2 \<longrightarrow>
      download_loop e need (url # urls) saved idx =
        (if need \<le> int saved then ([], Inr (saved, idx))
         else after (fst (fetch_html e url)) (download_loop e need urls saved idx)))"
proof -
  have "get_author_pages e = (fst (fetch_html e AUTHORS_PAGE), Inl RuntimeError) \<and>
      snd (main e) = Inl RuntimeError \<and> written (fst (main e)) = []"
    if "snd (fetch_html e AUTHORS_PAGE) = Inr html0" "falsy html0"
  proof -
    have g: "get_author_pages e = (fst (fetch_html e AUTHORS_PAGE), Inl RuntimeError)"
      using that by (rule get_author_pages_falsy)
    then have "main e = (fst (fetch_html e AUTHORS_PAGE), Inl RuntimeError)"
      by (simp add: main_def collect_text_page_urls_def)
    then show ?thesis
      using g by simp
  qed
  then show ?thesis
    using collect_authors_skip download_loop_skip by blast
qed

lemma fetch_empty:
  "fetch_html empty_env url = ([Sleep, HttpGet url, CloseResponse], Inr (Some []))"
  by (simp add: fetch_html_def empty_env_def demo_env_def html_page_def html_page_is_html)

theorem empty_body_as_failed_fetch_witness:
  "snd (fetch_html empty_env AUTHORS_PAGE) = Inr (Some []) \<and>
   main empty_env = ([Sleep, HttpGet AUTHORS_PAGE, CloseResponse], Inl RuntimeError) \<and>
   collect_authors empty_env 1200 1 [demo_author] [] {} =
     ([Sleep, HttpGet demo_works, CloseResponse], Inr []) \<and>
   download_loop empty_env 100 [demo_text1] 0 [] =
     ([Sleep, HttpGet demo_text1, CloseResponse], Inr (0, []))"
proof -
  have f: "falsy (Some [])"
    by (simp add: falsy_def)
  have m: "main empty_env = (fst (get_author_pages empty_env), Inl RuntimeError)
      \<or> snd (get_author_pages empty_env) \<noteq> Inl RuntimeError"
    by (cases "get_author_pages empty_env") (auto simp: main_def collect_text_page_urls_def)
  from empty_body_as_failed_fetch [of empty_env "Some []" demo_author "Some []" 1200 1 "[]" "[]" "{}"
      demo_text1 "Some []" 100 "[]" 0 "[]"] f m
  show ?thesis
    by (simp add: fetch_empty works_of_author after_def)
qed

subsection \<open>Failures that end the run\<close>

lemma fetch_broken:
  "fetch_html broken_env AUTHORS_PAGE =
     ([Sleep, HttpGet AUTHORS_PAGE, ReadChunk [0], CloseResponse], Inr (Some ''x''))"
  "fetch_html broken_env demo_works =
     ([Sleep, HttpGet demo_works, ReadChunk [0], CloseResponse], Inl StreamError)"
  by (simp_all add: broken_env_def demo_env_def demo_simps)

lemma broken_authors: "get_author_pages broken_env =
   ([Sleep, HttpGet AUTHORS_PAGE, ReadChunk [0], CloseResponse], Inr [demo_author])"
  unfolding get_author_pages_def fetch_broken
  by (simp add: falsy_def extract_links_def broken_env_def demo_env_def demo_hrefs_def strip_def
      is_space_def BASE_def re_match_def AUTHOR_PAGE_RE_def Opt_def Plus_def demo_author_def)

text \<open>
  C6. Only a failure of the fetch of the seed page should end the run. In a world where the
  seed page is fetched and gives one author, and the connection drops while the works page
  of this author is read, the exception of \<open>iter_content\<close> leaves \<open>fetch_html\<close>,
  \<open>collect_text_page_urls\<close> and \<open>main\<close>: the run ends there, with no file written.
\<close>

theorem broken_stream_aborts_run:
  "snd (fetch_html broken_env AUTHORS_PAGE) = Inr (Some ''x'') \<and>
   snd (get_author_pages broken_env) = Inr [demo_author] \<and>
   main broken_env =
     ([Sleep, HttpGet AUTHORS_PAGE, ReadChunk [0], CloseResponse, Print (InfoAuthors 1),
       Sleep, HttpGet demo_works, ReadChunk [0], CloseResponse],
      Inl StreamError)"
  by (simp add: main_def collect_text_page_urls_def broken_authors works_of_author fetch_broken
      after_def)

subsection \<open>The collector\<close>

lemma set_fresh: "seen \<union> set (fresh seen xs) = seen \<union> set xs"
proof (induction xs arbitrary: seen)
  case Nil
  then show ?case by simp
next
  case (Cons x xs)
  show ?case
  proof (cases "x \<in> seen")
    case True
    then show ?thesis using Cons.IH [of seen] by auto
  next
    case False
    then show ?thesis using Cons.IH [of "insert x seen"] by auto
  qed
qed

lemma fresh_subset: "set (fresh seen xs) \<subseteq> set xs - seen"
proof (induction xs arbitrary: seen)
  case Nil
  then show ?case by simp
next
  case (Cons x xs)
  show ?case
  proof (cases "x \<in> seen")
    case True
    then show ?thesis using Cons.IH [of seen] by auto
  next
    case False
    then show ?thesis using Cons.IH [of "insert x seen"] by auto
  qed
qed

lemma distinct_fresh: "distinct (fresh seen xs)"
proof (induction xs arbitrary: seen)
  case Nil
  then show ?case by simp
next
  case (Cons x xs)
  show ?case
  proof (cases "x \<in> seen")
    case True
    then show ?thesis using Cons.IH by simp
  next
    case False
    then show ?thesis
      using Cons.IH [of "insert x seen"] fresh_subset [of "insert x seen" xs] by auto
  qed
qed

lemma fresh_append: "fresh seen (xs @ ys) = fresh seen xs @ fresh (seen \<union> set xs) ys"
proof (induction xs arbitrary: seen)
  case Nil
  then show ?case by simp
next
  case (Cons x xs)
  show ?case
  proof (cases "x \<in> seen")
    case True
    then have "seen \<union> set (x # xs) = seen \<union> set xs" by auto
    then show ?thesis using True Cons.IH [of seen] by simp
  next
    case False
    have "seen \<union> set (x # xs) = insert x seen \<union> set xs" by auto
    then show ?thesis using False Cons.IH [of "insert x seen"] by simp
  qed
qed

lemma remdups_snoc: "remdups (ys @ [x]) = filter (\<lambda>y. y \<noteq> x) (remdups ys) @ [x]"
  by (induction ys) auto

lemma first_seen_Cons: "first_seen (x # xs) = x # filter (\<lambda>y. y \<noteq> x) (first_seen xs)"
proof -
  have "remdups (rev xs @ [x]) = filter (\<lambda>y. y \<noteq> x) (remdups (rev xs)) @ [x]"
    by (rule remdups_snoc)
  then show ?thesis
    by (simp add: first_seen_def rev_filter)
qed

lemma fresh_first_seen: "fresh seen xs = filter (\<lambda>y. y \<notin> seen) (first_seen xs)"
proof (induction xs arbitrary: seen)
  case Nil
  then show ?case by (simp add: first_seen_def)
next
  case (Cons x xs)
  show ?case
  proof (cases "x \<in> seen")
    case True
    have "filter (\<lambda>y. y \<notin> seen) (filter (\<lambda>y. y \<noteq> x) (first_seen xs)) =
          filter (\<lambda>y. y \<notin> seen) (first_seen xs)"
      using True by (auto intro: filter_cong)
    then show ?thesis
      using True Cons.IH [of seen] by (simp add: first_seen_Cons)
  next
    case False
    have "filter (\<lambda>y. y \<notin> seen) (filter (\<lambda>y. y \<noteq> x) (first_seen xs)) =
          filter (\<lambda>y. y \<notin> insert x seen) (first_seen xs)"
      by (auto intro: filter_cong)
    then show ?thesis
      using False Cons.IH [of "insert x seen"] by (simp add: first_seen_Cons)
  qed
qed

lemma fresh_empty: "fresh {} xs = first_seen xs"
  by (simp add: fresh_first_seen)

lemma take_fresh_append:
  "take m (fresh seen (ls @ rs)) =
     take m (fresh seen ls) @
     take (m - length (take m (fresh seen ls)))
       (fresh (seen \<union> set (take m (fresh seen ls))) rs)"
proof (cases "m \<le> length (fresh seen ls)")
  case True
  then show ?thesis by (simp add: fresh_append)
next
  case False
  then have "take m (fresh seen ls) = fresh seen ls" by simp
  then show ?thesis
    using False by (simp add: fresh_append set_fresh)
qed

lemma collect_links_fresh:
  "seen = set collected \<Longrightarrow> int (length collected) < limit \<Longrightarrow>
   collect_links limit us collected seen =
     (collected @ take (nat limit - length collected)
                    (fresh seen (filter (re_match TEXT_PAGE_RE) us)),
      set (collected @ take (nat limit - length collected)
                    (fresh seen (filter (re_match TEXT_PAGE_RE) us))))"
proof (induction us arbitrary: collected seen)
  case Nil
  then show ?case by simp
next
  case (Cons u us)
  show ?case
  proof (cases "re_match TEXT_PAGE_RE u \<and> u \<notin> seen")
    case False
    then show ?thesis
      using Cons.IH [OF Cons.prems] by auto
  next
    case new: True
    show ?thesis
    proof (cases "limit \<le> int (length (collected @ [u]))")
      case True
      then have "nat limit - length collected = Suc 0"
        using Cons.prems(2) by simp
      then show ?thesis
        using new True Cons.prems(1) by simp
    next
      case False
      then have lt: "int (length (collected @ [u])) < limit" by simp
      have s: "insert u seen = set (collected @ [u])"
        using Cons.prems(1) by simp
      have m: "nat limit - length collected = Suc (nat limit - length (collected @ [u]))"
        using lt by simp
      show ?thesis
        using new False Cons.IH [OF s lt] unfolding m by simp
    qed
  qed
qed

lemma text_links_falsy:
  "snd (fetch_html e (author_to_all_works_url a)) = Inr html \<Longrightarrow> falsy html \<Longrightarrow>
   text_links e a = []"
  by (auto simp: text_links_def falsy_def)

lemma text_links_page:
  "snd (fetch_html e (author_to_all_works_url a)) = Inr html \<Longrightarrow> \<not> falsy html \<Longrightarrow>
   text_links e a =
     filter (re_match TEXT_PAGE_RE) (extract_links e (the html) (author_to_all_works_url a))"
  by (cases html) (auto simp: text_links_def falsy_def)

lemma collect_authors_fresh:
  "collect_authors e limit i authors collected seen = (evs, Inr urls) \<Longrightarrow>
   seen = set collected \<Longrightarrow>
   urls = collected @ take (nat limit - length collected)
                        (fresh seen (concat (map (text_links e) authors)))"
proof (induction authors arbitrary: i collected seen evs)
  case Nil
  then show ?case by simp
next
  case (Cons a rest)
  note run = Cons.prems(1) and seen = Cons.prems(2)
  let ?w = "author_to_all_works_url a"
  show ?case
  proof (cases "limit \<le> int (length collected)")
    case True
    then have "nat limit - length collected = 0" by simp
    then show ?thesis using run True by simp
  next
    case False
    then have lt: "int (length collected) < limit" by simp
    obtain evs0 r0 where f: "fetch_html e ?w = (evs0, r0)"
      by (cases "fetch_html e ?w")
    from run False f obtain html where r0: "r0 = Inr html"
      by (cases r0) (simp_all add: Let_def)
    have sf: "snd (fetch_html e ?w) = Inr html"
      using f r0 by simp
    show ?thesis
    proof (cases "falsy html")
      case True
      let ?r = "collect_authors e limit (i + 1) rest collected seen"
      have "snd ?r = Inr urls"
        using run False f r0 True by (simp add: Let_def after_eq_iff)
      then have "?r = (fst ?r, Inr urls)" by (simp add: prod_eq_iff)
      from Cons.IH [OF this seen] show ?thesis
        using text_links_falsy [OF sf True] by simp
    next
      case page: False
      let ?ls = "filter (re_match TEXT_PAGE_RE) (extract_links e (the html) ?w)"
      let ?m = "nat limit - length collected"
      let ?c = "collected @ take ?m (fresh seen ?ls)"
      have cs: "collect_links limit (extract_links e (the html) ?w) collected seen = (?c, set ?c)"
        using collect_links_fresh [OF seen lt] .
      let ?r = "collect_authors e limit (i + 1) rest ?c (set ?c)"
      have "snd ?r = Inr urls"
        using run False f r0 page cs by (simp add: Let_def after_eq_iff)
      then have "?r = (fst ?r, Inr urls)" by (simp add: prod_eq_iff)
      from Cons.IH [OF this refl]
      have urls: "urls = ?c @ take (nat limit - length ?c)
                        (fresh (set ?c) (concat (map (text_links e) rest)))" .
      have n: "nat limit - length ?c = ?m - length (take ?m (fresh seen ?ls))"
        by simp
      have s: "set ?c = seen \<union> set (take ?m (fresh seen ?ls))"
        using seen by simp
      have "take ?m (fresh seen (concat (map (text_links e) (a # rest)))) =
            take ?m (fresh seen ?ls) @
            take (?m - length (take ?m (fresh seen ?ls)))
              (fresh (seen \<union> set (take ?m (fresh seen ?ls))) (concat (map (text_links e) rest)))"
        using take_fresh_append [of ?m seen ?ls "concat (map (text_links e) rest)"]
        by (simp add: text_links_page [OF sf page])
      then show ?thesis
        unfolding urls n s by simp
    qed
  qed
qed

lemma collect_text_page_urls_fresh:
  assumes "snd (collect_text_page_urls e limit) = Inr urls"
  shows "urls = take (nat limit) (fresh {} (discovered e))"
proof -
  obtain evs0 r0 where g: "get_author_pages e = (evs0, r0)"
    by (cases "get_author_pages e")
  from assms g obtain authors where r0: "r0 = Inr authors"
    by (cases r0) (simp_all add: collect_text_page_urls_def)
  let ?r = "collect_authors e limit 1 authors [] {}"
  have "snd ?r = Inr urls"
    using assms g r0 by (simp add: collect_text_page_urls_def)
  then have "?r = (fst ?r, Inr urls)" by (simp add: prod_eq_iff)
  from collect_authors_fresh [OF this] show ?thesis
    using g r0 by (simp add: discovered_def)
qed

lemma discovered_match: "u \<in> set (discovered e) \<Longrightarrow> re_match TEXT_PAGE_RE u"
  by (auto simp: discovered_def text_links_def Let_def split: sum.splits option.splits if_splits)

text \<open>
  C2. For a limit that is not negative, the list that \<open>collect_text_page_urls\<close> returns
  has at most \<open>limit\<close> entries, each matches the text-page pattern, none occurs twice, and
  the entries are in the order in which the collector first saw them: the list is the
  first \<open>limit\<close> entries of the links discovered, each kept where it occurs first.
\<close>

theorem collect_text_page_urls_result:
  assumes "snd (collect_text_page_urls e limit) = Inr urls" and "0 \<le> limit"
  shows "int (length urls) \<le> limit \<and>
         (\<forall>u\<in>set urls. re_match TEXT_PAGE_RE u) \<and>
         distinct urls \<and>
         urls = take (nat limit) (first_seen (discovered e))"
proof -
  have urls: "urls = take (nat limit) (fresh {} (discovered e))"
    using assms(1) by (rule collect_text_page_urls_fresh)
  have 1: "int (length urls) \<le> limit"
    unfolding urls using assms(2) by simp
  have "set urls \<subseteq> set (discovered e)"
    unfolding urls using fresh_subset [of "{}" "discovered e"] set_take_subset by fastforce
  then have 2: "\<forall>u\<in>set urls. re_match TEXT_PAGE_RE u"
    using discovered_match by blast
  have 3: "distinct urls"
    unfolding urls by (simp add: distinct_fresh)
  have 4: "urls = take (nat limit) (first_seen (discovered e))"
    using urls by (simp add: fresh_empty)
  from 1 2 3 4 show ?thesis by blast
qed

lemma demo_collect_two: "snd (collect_text_page_urls demo_env 2) = Inr [demo_text1, demo_text2]"
  unfolding collect_text_page_urls_def demo_authors
  by (simp add: works_of_author fetch_works after_def falsy_def extract_links_def
      demo_hrefs_def strip_def is_space_def
      BASE_def re_match_def TEXT_PAGE_RE_def Opt_def Plus_def demo_text1_def demo_text2_def)

theorem collect_text_page_urls_result_witness:
  "snd (collect_text_page_urls demo_env 1200) = Inr [demo_text1, demo_text2, demo_text3] \<and>
   take 1200 (first_seen (discovered demo_env)) = [demo_text1, demo_text2, demo_text3] \<and>
   re_match TEXT_PAGE_RE demo_text3 \<and>
   snd (collect_text_page_urls demo_env 2) = Inr [demo_text1, demo_text2] \<and>
   take 2 (first_seen (discovered demo_env)) = [demo_text1, demo_text2]"
proof -
  have run: "snd (collect_text_page_urls demo_env 1200) = Inr [demo_text1, demo_text2, demo_text3]"
    by (simp add: demo_collect)
  have "(0::int) \<le> 1200" "(0::int) \<le> 2"
    by simp_all
  from collect_text_page_urls_result [OF run this(1)]
       collect_text_page_urls_result [OF demo_collect_two this(2)] run demo_collect_two
  show ?thesis
    by simp
qed

end
